theory Spec2Isabelle
  imports Main "HOL-Library.List_Lexorder" "HOL-Library.Char_ord"
begin

section \<open>Data model\<close>

text \<open>
  Nodes are heap objects. A \<open>Node\<close> interface value is the address of the \<open>BaseNode\<close>
  it embeds, so pointer identity in the source is equality of addresses here. The heap is a
  total function: a non-nil Go pointer always points to an object. Nil \<open>Node\<close> values are
  not modelled.
\<close>

type_synonym nid = nat
type_synonym tid = nat
type_synonym token = nat

record NodeMetadata =
  Description :: string
  Label :: string
  Name :: string

text \<open>
  \<open>context.Context\<close>: a context is either a root context or one derived by
  \<open>context.WithCancel\<close>, which pairs it with a cancel function. The cancel function is
  identified by a token; calling it adds the token to the set of fired tokens. A context
  reports an error as soon as its own token or the token of an ancestor has fired. A caller's
  context that is already cancelled is \<open>WithCancel k Background\<close> with \<open>k\<close> fired.
\<close>

datatype ctx = Background | WithCancel token ctx

text \<open>
  \<open>WorkflowStartOptions\<close>: \<open>workflow.go\<close> declares the field \<open>Groups\<close>, and
  \<open>BaseNode\<close> reads \<open>StopWhenNodesAreDone\<close>. A group callback is an opaque function
  value, identified by a number; \<open>None\<close> is the nil callback.
\<close>

record WorkflowStartGroup =
  Callback :: "nat option"
  Nodes :: "nid list"

record WorkflowStartOptions =
  Groups :: "WorkflowStartGroup list"
  StopWhenNodesAreDone :: bool

text \<open>
  \<open>CreateTaskFunc\<close>: the functions passed in the source are the external task factory
  of the workflow and the method value \<open>t.NewSubTask\<close> of a task pointer \<open>t\<close>, which is
  \<open>None\<close> when the pointer is nil.
\<close>

datatype CreateTaskFunc = NewTask | NewSubTask "tid option"

text \<open>
  \<open>BaseNode\<close>. The two \<open>*sync.Once\<close> fields are represented by the \<open>done\<close> flag of the
  object they point to: \<open>n.oStart = &sync.Once{}\<close> installs an object whose flag is
  false, and \<open>Do f\<close> on an object whose flag is false runs \<open>f\<close> and then sets the flag of
  that object. Neither \<open>Start\<close> nor \<open>Stop\<close> replaces, inside \<open>f\<close>, the guard it is
  running under, so the flag that is set is the flag of the field. The mutex is omitted: every
  method is modelled as one atomic step. The field \<open>status\<close> is the one \<open>workflow.go\<close>
  writes as \<open>w.bn.status\<close>.
\<close>

record BaseNode =
  cancel :: "token option"
  children :: "string \<rightharpoonup> nid"
  childrenDone :: "string \<rightharpoonup> bool"
  ctx :: "ctx option"
  md :: NodeMetadata
  opts :: WorkflowStartOptions
  oStartDone :: bool
  oStopDone :: bool
  parents :: "string \<rightharpoonup> nid"
  parentsDone :: "string \<rightharpoonup> bool"
  status :: string

text \<open>
  The task supervisor (\<open>astiworker.Task\<close>) is an external collaborator. Its state is the
  table of the tasks created so far; a task's identifier is its index in the table.
\<close>

record Task =
  parentTask :: "tid option"
  taskDone :: bool

datatype error = ErrNodeNotFound | External string | Wrap error string

datatype payload = PString string | PError error

text \<open>
  Modelled from the spec: the event names and \<open>EventError\<close> are declared outside the
  source shown. Section 6 of the specification lists the names emitted by this core:
  workflow-started, workflow-paused, workflow-stopped, and a generic error event carrying a
  wrapped error.
\<close>

datatype EventName =
  EventNameError | EventNameWorkflowPaused | EventNameWorkflowStarted | EventNameWorkflowStopped

record Event =
  EName :: EventName
  Payload :: payload

definition EventError :: "error \<Rightarrow> Event" where
  "EventError e = \<lparr>EName = EventNameError, Payload = PError e\<rparr>"

text \<open>
  Calls whose effect lies outside the node graph, and the calls a goroutine body makes on
  its neighbours, are observed in program order.
\<close>

datatype call =
  CallExec nat tid
  | CallParentIsDone nid NodeMetadata
  | CallChildIsDone nid NodeMetadata
  | CallStop nid
  | CallDone tid
  | CallNodeStart nid "ctx option" CreateTaskFunc
  | CallNodePause nid
  | CallNodeContinue nid
  | CallCallback nat "tid option"
  | CallEmit Event
  | CallWait tid
  | CallClose

text \<open>
  The program state: the heap of nodes, the cancel tokens that have fired and the next
  unused one, the task table, the goroutines launched by \<open>go\<close> statements (node, task and
  the identifier of the exec function), and the observed calls.
\<close>

record state =
  nodes :: "nid \<Rightarrow> BaseNode"
  cancelled :: "token set"
  nextToken :: token
  tasks :: "Task list"
  goroutines :: "(nid \<times> tid \<times> nat) list"
  calls :: "call list"

section \<open>BaseNode\<close>

definition NewBaseNode :: "NodeMetadata \<Rightarrow> BaseNode" where
  "NewBaseNode m =
     \<lparr>cancel = None, children = Map.empty, childrenDone = Map.empty, ctx = None, md = m,
      opts = \<lparr>Groups = [], StopWhenNodesAreDone = False\<rparr>,
      oStartDone = False, oStopDone = False,
      parents = Map.empty, parentsDone = Map.empty, status = []\<rparr>"

definition upd :: "nid \<Rightarrow> (BaseNode \<Rightarrow> BaseNode) \<Rightarrow> state \<Rightarrow> state" where
  "upd n f s = s\<lparr>nodes := (nodes s)(n := f (nodes s n))\<rparr>"

text \<open>\<open>ctx.Err() != nil\<close>\<close>

fun Err :: "state \<Rightarrow> ctx \<Rightarrow> bool" where
  "Err s Background = False"
| "Err s (WithCancel k p) = (k \<in> cancelled s \<or> Err s p)"

definition Context :: "nid \<Rightarrow> state \<Rightarrow> ctx option" where
  "Context n s = ctx (nodes s n)"


text \<open>Calling a \<open>CreateTaskFunc\<close> appends a task to the table and returns its identifier.\<close>

definition createTask :: "CreateTaskFunc \<Rightarrow> state \<Rightarrow> tid \<times> state" where
  "createTask tc s =
     (length (tasks s),
      s\<lparr>tasks := tasks s @
           [\<lparr>parentTask = (case tc of NewTask \<Rightarrow> None | NewSubTask p \<Rightarrow> p),
             taskDone = False\<rparr>]\<rparr>)"

text \<open>
  \<open>Start\<close>. The body under \<open>n.oStart.Do\<close> stores the options, returns early when the
  inherited context is cancelled, and otherwise creates the task, derives the node's context,
  installs a fresh stop guard and launches the goroutine.
\<close>

definition Start :: "ctx \<Rightarrow> WorkflowStartOptions \<Rightarrow> CreateTaskFunc \<Rightarrow> nat \<Rightarrow> nid \<Rightarrow> state \<Rightarrow> state" where
  "Start c o' tc execFunc n s =
     (if oStartDone (nodes s n) then s
      else
        let s1 = upd n (\<lambda>N. N\<lparr>opts := o'\<rparr>) s in
        if Err s1 c then upd n (\<lambda>N. N\<lparr>oStartDone := True\<rparr>) s1
        else
          let (t, s2) = createTask tc s1;
              k = nextToken s2;
              s3 = upd n (\<lambda>N. N\<lparr>ctx := Some (WithCancel k c), cancel := Some k\<rparr>)
                     (s2\<lparr>nextToken := Suc k\<rparr>);
              s4 = upd n (\<lambda>N. N\<lparr>oStopDone := False\<rparr>) s3;
              s5 = s4\<lparr>goroutines := goroutines s4 @ [(n, t, execFunc)]\<rparr>
          in upd n (\<lambda>N. N\<lparr>oStartDone := True\<rparr>) s5)"

definition Stop :: "nid \<Rightarrow> state \<Rightarrow> state" where
  "Stop n s =
     (if oStopDone (nodes s n) then s
      else
        let s1 = (case cancel (nodes s n) of
                    None \<Rightarrow> s
                  | Some k \<Rightarrow> s\<lparr>cancelled := insert k (cancelled s)\<rparr>);
            s2 = upd n (\<lambda>N. N\<lparr>oStartDone := False\<rparr>) s1
        in upd n (\<lambda>N. N\<lparr>oStopDone := True\<rparr>) s2)"

definition Metadata :: "nid \<Rightarrow> state \<Rightarrow> NodeMetadata" where
  "Metadata n s = md (nodes s n)"

definition AddChild :: "nid \<Rightarrow> nid \<Rightarrow> state \<Rightarrow> state" where
  "AddChild n i s =
     (case children (nodes s n) (Name (Metadata i s)) of
        Some _ \<Rightarrow> s
      | None \<Rightarrow> upd n (\<lambda>N. N\<lparr>children := (children N)(Name (Metadata i s) \<mapsto> i)\<rparr>) s)"

definition ChildIsDone :: "nid \<Rightarrow> NodeMetadata \<Rightarrow> state \<Rightarrow> state" where
  "ChildIsDone n m s =
     (case children (nodes s n) (Name m) of
        None \<Rightarrow> s
      | Some _ \<Rightarrow>
          let s1 = upd n (\<lambda>N. N\<lparr>childrenDone := (childrenDone N)(Name m \<mapsto> True)\<rparr>) s in
          if StopWhenNodesAreDone (opts (nodes s1 n))
             \<and> card (dom (childrenDone (nodes s1 n))) = card (dom (children (nodes s1 n)))
          then Stop n s1 else s1)"

text \<open>The keys are collected, sorted, and looked up in that order.\<close>

definition Children :: "nid \<Rightarrow> state \<Rightarrow> nid list" where
  "Children n s =
     (let ks = sorted_list_of_set (dom (children (nodes s n)))
      in List.map_filter (children (nodes s n)) ks)"

definition AddParent :: "nid \<Rightarrow> nid \<Rightarrow> state \<Rightarrow> state" where
  "AddParent n i s =
     (case parents (nodes s n) (Name (Metadata i s)) of
        Some _ \<Rightarrow> s
      | None \<Rightarrow> upd n (\<lambda>N. N\<lparr>parents := (parents N)(Name (Metadata i s) \<mapsto> i)\<rparr>) s)"

definition ParentIsDone :: "nid \<Rightarrow> NodeMetadata \<Rightarrow> state \<Rightarrow> state" where
  "ParentIsDone n m s =
     (case parents (nodes s n) (Name m) of
        None \<Rightarrow> s
      | Some _ \<Rightarrow>
          let s1 = upd n (\<lambda>N. N\<lparr>parentsDone := (parentsDone N)(Name m \<mapsto> True)\<rparr>) s in
          if StopWhenNodesAreDone (opts (nodes s1 n))
             \<and> card (dom (parentsDone (nodes s1 n))) = card (dom (parents (nodes s1 n)))
          then Stop n s1 else s1)"

definition Parents :: "nid \<Rightarrow> state \<Rightarrow> nid list" where
  "Parents n s =
     (let ks = sorted_list_of_set (dom (parents (nodes s n)))
      in List.map_filter (parents (nodes s n)) ks)"

definition ConnectNodes :: "nid \<Rightarrow> nid \<Rightarrow> state \<Rightarrow> state" where
  "ConnectNodes parent child s = AddParent child parent (AddChild parent child s)"


section \<open>The goroutine launched by Start\<close>

definition logCall :: "call \<Rightarrow> state \<Rightarrow> state" where
  "logCall c s = s\<lparr>calls := calls s @ [c]\<rparr>"

text \<open>\<open>t.Done()\<close> of the task supervisor marks the task as done.\<close>

definition TaskDone :: "tid \<Rightarrow> state \<Rightarrow> state" where
  "TaskDone t s =
     (if t < length (tasks s)
      then s\<lparr>tasks := (tasks s)[t := (tasks s ! t)\<lparr>taskDone := True\<rparr>]\<rparr>
      else s)"

text \<open>
  A \<open>defer\<close> statement pushes a call on the stack of the function; when the function
  returns, the stack is run from its top.
\<close>

datatype deferred = DeferDone tid | DeferStop nid

fun runDeferred :: "deferred \<Rightarrow> state \<Rightarrow> state" where
  "runDeferred (DeferDone t) s = TaskDone t (logCall (CallDone t) s)"
| "runDeferred (DeferStop n) s = Stop n (logCall (CallStop n) s)"

definition notifyChild :: "nid \<Rightarrow> nid \<Rightarrow> state \<Rightarrow> state" where
  "notifyChild n c s =
     ParentIsDone c (md (nodes s n)) (logCall (CallParentIsDone c (md (nodes s n))) s)"

definition notifyParent :: "nid \<Rightarrow> nid \<Rightarrow> state \<Rightarrow> state" where
  "notifyParent n p s =
     ChildIsDone p (md (nodes s n)) (logCall (CallChildIsDone p (md (nodes s n))) s)"

text \<open>
  The body of the goroutine of \<open>Start\<close>, for the node \<open>n\<close>, the task \<open>t\<close> and the exec
  function \<open>execFunc\<close>; \<open>run\<close> gives the effect of calling an exec function, which the
  source leaves to the concrete node.
\<close>

definition goroutine :: "(nat \<Rightarrow> tid \<Rightarrow> state \<Rightarrow> state) \<Rightarrow> nid \<Rightarrow> tid \<Rightarrow> nat \<Rightarrow> state \<Rightarrow> state" where
  "goroutine run n t execFunc s =
     (let ds = [];
          ds = DeferDone t # ds;
          ds = DeferStop n # ds;
          s1 = run execFunc t (logCall (CallExec execFunc t) s);
          s2 = fold (notifyChild n) (Children n s1) s1;
          s3 = fold (notifyParent n) (Parents n s2) s2
      in fold runDeferred ds s3)"

section \<open>Workflow\<close>

text \<open>
  The fields of \<open>Workflow\<close> carry the prefix \<open>wf\<close>, since \<open>t\<close>, \<open>ns\<close> and \<open>ctx\<close> are
  names of variables and of a field of \<open>BaseNode\<close>; likewise the field \<open>o\<close> of
  \<open>BaseNode\<close> is \<open>opts\<close>. The closer, the event emitter and the mutex of the workflow
  are external collaborators and carry no state of their own here: the calls of the closer
  and of the emitter are observed in \<open>calls\<close>.
\<close>

record Workflow =
  wf_bn :: nid
  wf_ctx :: ctx
  wf_name :: string
  wf_ns :: "string \<rightharpoonup> nid"
  wf_t :: "tid option"
  wf_tf :: CreateTaskFunc

text \<open>
  \<open>indexNodesFunc\<close> recurses through the children of every node it meets, so it does not
  return on a graph with a cycle. The first argument bounds the depth of the recursion;
  \<open>None\<close> means the bound was reached.
\<close>

fun indexNodesFunc :: "nat \<Rightarrow> state \<Rightarrow> nid list \<Rightarrow> (string \<rightharpoonup> nid) \<Rightarrow> (string \<rightharpoonup> nid) option" where
  "indexNodesFunc 0 s ns r = None"
| "indexNodesFunc (Suc k) s [] r = Some r"
| "indexNodesFunc (Suc k) s (n # ns) r =
     (case indexNodesFunc k s (Children n s) (r(Name (Metadata n s) \<mapsto> n)) of
        None \<Rightarrow> None
      | Some r' \<Rightarrow> indexNodesFunc (Suc k) s ns r')"

definition IndexNodes :: "nat \<Rightarrow> Workflow \<Rightarrow> state \<Rightarrow> Workflow option" where
  "IndexNodes k w s =
     map_option (\<lambda>r. w\<lparr>wf_ns := r\<rparr>) (indexNodesFunc k s (Children (wf_bn w) s) (wf_ns w))"

text \<open>
  \<open>n.Start\<close>, \<open>n.Pause\<close> and \<open>n.Continue\<close> are calls through the \<open>Node\<close> interface into the
  concrete node, and a group callback is a function value of the caller: they are observed
  as calls.
\<close>

definition StartNodes :: "Workflow \<Rightarrow> nid list \<Rightarrow> state \<Rightarrow> state" where
  "StartNodes w ns s =
     fold (\<lambda>n s. logCall (CallNodeStart n (Context (wf_bn w) s) (NewSubTask (wf_t w))) s) ns s"

definition StartNodesInSubTask :: "Workflow \<Rightarrow> nid list \<Rightarrow> state \<Rightarrow> tid \<times> state" where
  "StartNodesInSubTask w ns s =
     (let (t, s1) = createTask (NewSubTask (wf_t w)) s
      in (t, fold (\<lambda>n s. logCall (CallNodeStart n (Context (wf_bn w) s) (NewSubTask (Some t))) s)
                ns s1))"

record workflowStartGroup =
  g_fn :: "nat option"
  g_ns :: "nid list"
  g_t :: "tid option"

text \<open>
  The groups are allocated in the order of \<open>o.Groups\<close>; the map \<open>ngs\<close> from a node to its
  group holds the position of the group in \<open>gs\<close>.
\<close>

definition indexGroup ::
  "WorkflowStartGroup \<Rightarrow> workflowStartGroup list \<times> (nid \<rightharpoonup> nat) \<Rightarrow> workflowStartGroup list \<times> (nid \<rightharpoonup> nat)" where
  "indexGroup og acc =
     (case acc of (gs, ngs) \<Rightarrow>
        (gs @ [\<lparr>g_fn = Callback og, g_ns = [], g_t = None\<rparr>],
         fold (\<lambda>n ngs. ngs(n \<mapsto> length gs)) (Nodes og) ngs))"

definition startOrCollect ::
  "Workflow \<Rightarrow> (nid \<rightharpoonup> nat) \<Rightarrow> nid \<Rightarrow> workflowStartGroup list \<times> state \<Rightarrow> workflowStartGroup list \<times> state" where
  "startOrCollect w ngs n acc =
     (case acc of (gs, s) \<Rightarrow>
        (case ngs n of
           Some g \<Rightarrow> (gs[g := (gs ! g)\<lparr>g_ns := g_ns (gs ! g) @ [n]\<rparr>], s)
         | None \<Rightarrow> (gs, StartNodes w [n] s)))"

fun startGroups :: "Workflow \<Rightarrow> workflowStartGroup list \<Rightarrow> state \<Rightarrow> workflowStartGroup list \<times> state" where
  "startGroups w [] s = ([], s)"
| "startGroups w (g # gs) s =
     (let (t, s1) = StartNodesInSubTask w (g_ns g) s;
          (gs', s2) = startGroups w gs s1
      in (g\<lparr>g_t := Some t\<rparr> # gs', s2))"

definition Emit :: "Event \<Rightarrow> state \<Rightarrow> state" where
  "Emit e s = logCall (CallEmit e) s"

definition runCallback :: "workflowStartGroup \<Rightarrow> state \<Rightarrow> state" where
  "runCallback g s =
     (case g_fn g of None \<Rightarrow> s | Some f \<Rightarrow> logCall (CallCallback f (g_t g)) s)"

text \<open>\<open>errors.Wrapf(err, "astiencoder: closing workflow %s failed", w.name)\<close>\<close>

definition closingFailed :: "error \<Rightarrow> string \<Rightarrow> error" where
  "closingFailed e name' = Wrap e (''astiencoder: closing workflow '' @ name' @ '' failed'')"

text \<open>
  The exec function that \<open>Workflow.start\<close> passes to the \<open>Start\<close> of the root node, for the
  nodes \<open>ns\<close>, the options \<open>o\<close> and the task \<open>t\<close> it is called with. \<open>closeErr\<close> is what
  \<open>w.c.Close()\<close> returns.
\<close>

definition start_exec ::
  "Workflow \<Rightarrow> nid list \<Rightarrow> WorkflowStartOptions \<Rightarrow> error option \<Rightarrow> tid \<Rightarrow> state \<Rightarrow> Workflow \<times> state" where
  "start_exec w ns o' closeErr t s =
     (let w1 = w\<lparr>wf_t := Some t\<rparr>;
          (gs, ngs) = fold indexGroup (Groups o') ([], Map.empty);
          (gs1, s1) = fold (startOrCollect w1 ngs) ns (gs, s);
          (gs2, s2) = startGroups w1 gs1 s1;
          s3 = Emit \<lparr>EName = EventNameWorkflowStarted, Payload = PString (wf_name w1)\<rparr> s2;
          s4 = fold runCallback gs2 s3;
          s5 = logCall (CallWait t) s4;
          s6 = logCall CallClose s5;
          s7 = (case closeErr of
                  None \<Rightarrow> s6
                | Some e \<Rightarrow> Emit (EventError (closingFailed e (wf_name w1))) s6)
      in (w1, Emit \<lparr>EName = EventNameWorkflowStopped, Payload = PString (wf_name w1)\<rparr> s7))"

text \<open>
  Modelled from the spec: \<open>BaseNode.Status\<close> and the status constants are not in the source
  shown. Section 4.3 says that the status reflects the root node's tracked status field, and
  section 3 that its values are Stopped, Running and Paused.
\<close>

definition StatusPaused :: string where "StatusPaused = ''paused''"
definition StatusRunning :: string where "StatusRunning = ''running''"
definition StatusStopped :: string where "StatusStopped = ''stopped''"

definition Status :: "nid \<Rightarrow> state \<Rightarrow> string" where
  "Status n s = status (nodes s n)"

text \<open>
  \<open>Pause\<close> and \<open>Continue\<close>; \<open>ns\<close> is the list \<open>w.nodes()\<close> returns, the registered nodes
  in the iteration order of the registry, which Go leaves open.
\<close>

definition Pause :: "Workflow \<Rightarrow> nid list \<Rightarrow> state \<Rightarrow> state" where
  "Pause w ns s =
     (if Status (wf_bn w) s \<noteq> StatusRunning then s
      else
        let s1 = fold (\<lambda>n. logCall (CallNodePause n)) ns s;
            s2 = upd (wf_bn w) (\<lambda>N. N\<lparr>status := StatusPaused\<rparr>) s1
        in Emit \<lparr>EName = EventNameWorkflowPaused, Payload = PString (wf_name w)\<rparr> s2)"

definition Continue :: "Workflow \<Rightarrow> nid list \<Rightarrow> state \<Rightarrow> state" where
  "Continue w ns s =
     (if Status (wf_bn w) s \<noteq> StatusPaused then s
      else
        let s1 = fold (\<lambda>n. logCall (CallNodeContinue n)) ns s;
            s2 = upd (wf_bn w) (\<lambda>N. N\<lparr>status := StatusRunning\<rparr>) s1
        in Emit \<lparr>EName = EventNameWorkflowStarted, Payload = PString (wf_name w)\<rparr> s2)"

text \<open>\<open>Workflow.Node\<close> returns the workflow as it leaves it, and the node or the error.\<close>

definition Node :: "Workflow \<Rightarrow> string \<Rightarrow> Workflow \<times> (error + nid)" where
  "Node w name' =
     (case wf_ns w name' of
        None \<Rightarrow> (w, Inl ErrNodeNotFound)
      | Some n \<Rightarrow> (w, Inr n))"


section \<open>Observations and example states\<close>

text \<open>\<open>precedes a b cs\<close>: \<open>b\<close> occurs in \<open>cs\<close> after the first occurrence of \<open>a\<close>.\<close>

definition precedes :: "'a \<Rightarrow> 'a \<Rightarrow> 'a list \<Rightarrow> bool" where
  "precedes a b cs = (b \<in> set (drop 1 (dropWhile (\<lambda>x. x \<noteq> a) cs)))"

text \<open>The events passed to the emitter, in order.\<close>

definition emitted :: "call list \<Rightarrow> Event list" where
  "emitted cs = List.map_filter (\<lambda>c. case c of CallEmit e \<Rightarrow> Some e | _ \<Rightarrow> None) cs"

text \<open>
  The nodes that \<open>indexNodesFunc\<close> visits from the list \<open>ns\<close>: the nodes of the list, and
  the children of every visited node.
\<close>

inductive walked :: "state \<Rightarrow> nid list \<Rightarrow> nid \<Rightarrow> bool" for s :: state and ns :: "nid list" where
  start: "m \<in> set ns \<Longrightarrow> walked s ns m"
| child: "walked s ns m \<Longrightarrow> c \<in> set (Children m s) \<Longrightarrow> walked s ns c"

text \<open>
  The map \<open>ngs\<close> that the exec function of the workflow builds from the options: the
  position of the group of a node.
\<close>

definition groupOf :: "WorkflowStartOptions \<Rightarrow> nid \<Rightarrow> nat option" where
  "groupOf o' = snd (fold indexGroup (Groups o') ([], Map.empty))"

abbreviation newGroup :: "WorkflowStartGroup \<Rightarrow> workflowStartGroup" where
  "newGroup og \<equiv> \<lparr>g_fn = Callback og, g_ns = [], g_t = None\<rparr>"

definition callbackCalls :: "workflowStartGroup \<Rightarrow> call list" where
  "callbackCalls g = (case g_fn g of None \<Rightarrow> [] | Some f \<Rightarrow> [CallCallback f (g_t g)])"

definition md0 :: "string \<Rightarrow> NodeMetadata" where
  "md0 x = \<lparr>Description = [], Label = [], Name = x\<rparr>"

definition o0 :: WorkflowStartOptions where
  "o0 = \<lparr>Groups = [], StopWhenNodesAreDone = False\<rparr>"

text \<open>
  A heap of freshly constructed nodes: node 0 is named root, node 1 a, node 2 b, every other
  node z. The token 9 belongs to a context of the caller and has fired.
\<close>

definition exNodes :: "nid \<Rightarrow> BaseNode" where
  "exNodes i = NewBaseNode (md0 (if i = 0 then ''root'' else if i = 1 then ''a''
                                else if i = 2 then ''b'' else ''z''))"

definition exState :: state where
  "exState = \<lparr>nodes = exNodes, cancelled = {9}, nextToken = 10, tasks = [],
              goroutines = [], calls = []\<rparr>"

text \<open>Node 1 between its parent 0 and its child 2, started.\<close>

definition exChain :: state where
  "exChain = Start Background o0 NewTask 7 1 (ConnectNodes 1 2 (ConnectNodes 0 1 exState))"


text \<open>The root 0 with the children a and b, with the child a only, and started.\<close>

definition exIndexed :: state where
  "exIndexed = AddChild 0 2 (AddChild 0 1 exState)"

definition exOnlyA :: state where
  "exOnlyA = AddChild 0 1 exState"

definition exRoot :: state where
  "exRoot = Start Background o0 NewTask 7 0 exIndexed"

text \<open>A workflow on the root 0 whose registry holds a and b.\<close>

definition exWorkflow :: Workflow where
  "exWorkflow = \<lparr>wf_bn = 0, wf_ctx = Background, wf_name = ''wf'',
                  wf_ns = [''a'' \<mapsto> 1, ''b'' \<mapsto> 2], wf_t = None, wf_tf = NewTask\<rparr>"

definition exRunning :: state where
  "exRunning = upd 0 (\<lambda>N. N\<lparr>status := StatusRunning\<rparr>) exState"

definition exStopped :: state where
  "exStopped = upd 0 (\<lambda>N. N\<lparr>status := StatusStopped\<rparr>) exState"

text \<open>One group, holding node 1, with the callback 3.\<close>

definition exGroups :: WorkflowStartOptions where
  "exGroups = \<lparr>Groups = [\<lparr>Callback = Some 3, Nodes = [1]\<rparr>], StopWhenNodesAreDone = False\<rparr>"

section \<open>Start and Stop\<close>

lemma Err_cancelled: "cancelled s = cancelled s' \<Longrightarrow> Err s c = Err s' c"
  by (induction c) auto

lemma upd_simps [simp]:
  "nodes (upd n f s) = (nodes s)(n := f (nodes s n))"
  "cancelled (upd n f s) = cancelled s"
  "nextToken (upd n f s) = nextToken s"
  "tasks (upd n f s) = tasks s"
  "goroutines (upd n f s) = goroutines s"
  "calls (upd n f s) = calls s"
  by (simp_all add: upd_def)

lemma Err_upd [simp]: "Err (upd n f s) c = Err s c"
  by (rule Err_cancelled) simp

lemma Start_started: "oStartDone (nodes s n) \<Longrightarrow> Start c o' tc e n s = s"
  by (simp add: Start_def)

lemma oStartDone_Start: "oStartDone (nodes (Start c o' tc e n s) n)"
  by (simp add: Start_def Let_def createTask_def split: prod.splits)

lemma Start_cancelled:
  "Err s c \<Longrightarrow> tasks (Start c o' tc e n s) = tasks s \<and> goroutines (Start c o' tc e n s) = goroutines s"
  by (simp add: Start_def Let_def)

lemma Start_live:
  "\<not> oStartDone (nodes s n) \<Longrightarrow> \<not> Err s c \<Longrightarrow>
   goroutines (Start c o' tc e n s) = goroutines s @ [(n, length (tasks s), e)]"
  by (simp add: Start_def Let_def createTask_def)

text \<open>
  Claim C1. \<open>Start\<close> on a node whose start guard has fired changes nothing; a second
  \<open>Start\<close> after any \<open>Start\<close> changes nothing, so that a node that was startable under a
  live context has launched exactly one goroutine for its exec function after two calls; and
  under a cancelled context \<open>Start\<close> creates no task and launches no goroutine.
\<close>

theorem Start_idempotent:
  "(oStartDone (nodes s n) \<longrightarrow> Start c o' tc e n s = s)
   \<and> Start c2 o2 tc2 e2 n (Start c o' tc e n s) = Start c o' tc e n s
   \<and> (\<not> oStartDone (nodes s n) \<and> \<not> Err s c \<longrightarrow>
        goroutines (Start c2 o2 tc2 e2 n (Start c o' tc e n s))
          = goroutines s @ [(n, length (tasks s), e)])
   \<and> (Err s c \<longrightarrow> tasks (Start c o' tc e n s) = tasks s
                   \<and> goroutines (Start c o' tc e n s) = goroutines s)"
  using Start_started [OF oStartDone_Start]
  by (simp add: Start_started Start_cancelled Start_live)


theorem Start_idempotent_witness:
  "\<not> oStartDone (nodes exState 0) \<and> \<not> Err exState Background
   \<and> goroutines (Start Background o0 NewTask 8 0 (Start Background o0 NewTask 7 0 exState))
        = [(0, 0, 7)]
   \<and> oStartDone (nodes (Start Background o0 NewTask 7 0 exState) 0)
   \<and> Start Background o0 NewTask 8 0 (Start Background o0 NewTask 7 0 exState)
        = Start Background o0 NewTask 7 0 exState
   \<and> Err exState (WithCancel 9 Background)
   \<and> tasks (Start (WithCancel 9 Background) o0 NewTask 7 0 exState) = []
   \<and> goroutines (Start (WithCancel 9 Background) o0 NewTask 7 0 exState) = []"
proof -
  have h: "\<not> oStartDone (nodes exState 0)" "\<not> Err exState Background"
    "Err exState (WithCancel 9 Background)" "tasks exState = []" "goroutines exState = []"
    by (simp_all add: exState_def exNodes_def NewBaseNode_def)
  show ?thesis
    using Start_idempotent [of exState 0 Background o0 NewTask 7 Background o0 NewTask 8]
      Start_idempotent [of "Start Background o0 NewTask 7 0 exState" 0 Background o0 NewTask 8]
      Start_idempotent [of exState 0 "WithCancel 9 Background" o0 NewTask 7]
      oStartDone_Start [of Background o0 NewTask 7 0 exState] h
    by simp
qed

lemma Stop_fields [simp]:
  "tasks (Stop n s) = tasks s"
  "goroutines (Stop n s) = goroutines s"
  "calls (Stop n s) = calls s"
  "nextToken (Stop n s) = nextToken s"
  by (simp_all add: Stop_def Let_def split: option.splits)

lemma Stop_resets:
  "\<not> oStopDone (nodes s n) \<Longrightarrow> \<not> oStartDone (nodes (Stop n s) n)"
  by (simp add: Stop_def Let_def split: option.splits)

lemma Start_cancelled_state:
  "\<not> oStartDone (nodes s n) \<Longrightarrow> Err s c \<Longrightarrow>
   Start c o' tc e n s = upd n (\<lambda>N. N\<lparr>oStartDone := True\<rparr>) (upd n (\<lambda>N. N\<lparr>opts := o'\<rparr>) s)"
  by (simp add: Start_def Let_def)

text \<open>
  Claim C10, amended. When \<open>Start\<close> is called on a startable node under a cancelled
  context, no task is created and no goroutine is launched, but the options are stored and
  the start guard is consumed: every later \<open>Start\<close>, under any context, changes nothing.
  If the stop guard of the node has not fired, \<open>Stop\<close> resets the start guard, and a
  \<open>Start\<close> under a live context then launches the goroutine.
\<close>

theorem Start_cancelled_consumes_guard:
  assumes "\<not> oStartDone (nodes s n)" and "Err s c"
  shows "let s1 = Start c o' tc e n s in
           tasks s1 = tasks s \<and> goroutines s1 = goroutines s
           \<and> oStartDone (nodes s1 n) \<and> opts (nodes s1 n) = o'
           \<and> Start c2 o2 tc2 e2 n s1 = s1
           \<and> (\<not> oStopDone (nodes s n) \<longrightarrow>
                \<not> oStartDone (nodes (Stop n s1) n)
                \<and> (\<not> Err (Stop n s1) c2 \<longrightarrow>
                     goroutines (Start c2 o2 tc2 e2 n (Stop n s1))
                       = goroutines s @ [(n, length (tasks s), e2)]))"
proof -
  define s1 where "s1 = Start c o' tc e n s"
  have eq: "s1 = upd n (\<lambda>N. N\<lparr>oStartDone := True\<rparr>) (upd n (\<lambda>N. N\<lparr>opts := o'\<rparr>) s)"
    unfolding s1_def using assms by (rule Start_cancelled_state)
  have a: "tasks s1 = tasks s" "goroutines s1 = goroutines s"
    "oStartDone (nodes s1 n)" "opts (nodes s1 n) = o'" "oStopDone (nodes s1 n) = oStopDone (nodes s n)"
    by (simp_all add: eq)
  have b: "Start c2 o2 tc2 e2 n s1 = s1"
    using a(3) by (rule Start_started)
  have c: "\<not> oStartDone (nodes (Stop n s1) n)" if "\<not> oStopDone (nodes s n)"
    using that a(5) by (simp add: Stop_resets)
  have d: "goroutines (Start c2 o2 tc2 e2 n (Stop n s1)) = goroutines s @ [(n, length (tasks s), e2)]"
    if "\<not> oStopDone (nodes s n)" and "\<not> Err (Stop n s1) c2"
    using Start_live [OF c [OF that(1)] that(2), of o2 tc2 e2] a by simp
  show ?thesis
    unfolding s1_def [symmetric] Let_def using a b c d by blast
qed

theorem Start_cancelled_consumes_guard_witness:
  "\<not> oStartDone (nodes exState 0) \<and> Err exState (WithCancel 9 Background) \<and> \<not> oStopDone (nodes exState 0)
   \<and> \<not> Err (Stop 0 (Start (WithCancel 9 Background) o0 NewTask 7 0 exState)) Background
   \<and> tasks (Start (WithCancel 9 Background) o0 NewTask 7 0 exState) = []
   \<and> Start Background o0 NewTask 8 0 (Start (WithCancel 9 Background) o0 NewTask 7 0 exState)
        = Start (WithCancel 9 Background) o0 NewTask 7 0 exState
   \<and> goroutines (Start Background o0 NewTask 8 0
         (Stop 0 (Start (WithCancel 9 Background) o0 NewTask 7 0 exState))) = [(0, 0, 8)]"
proof -
  have h1: "\<not> oStartDone (nodes exState 0)" by (simp add: exState_def exNodes_def NewBaseNode_def)
  have h2: "Err exState (WithCancel 9 Background)" by (simp add: exState_def exNodes_def)
  have h3: "\<not> oStopDone (nodes exState 0)" by (simp add: exState_def exNodes_def NewBaseNode_def)
  have h4: "\<not> Err (Stop 0 (Start (WithCancel 9 Background) o0 NewTask 7 0 exState)) Background"
    by simp
  have t: "tasks exState = []" "goroutines exState = []" by (simp_all add: exState_def exNodes_def)
  show ?thesis
    using Start_cancelled_consumes_guard [OF h1 h2, of o0 NewTask 7 Background o0 NewTask 8] h1 h2 h3 h4 t
    by (simp add: Let_def)
qed

text \<open>
  Claim C10 as stated fails on a node whose stop guard has fired, here a fresh node on which
  \<open>Stop\<close> was called: after a \<open>Start\<close> under the cancelled context, \<open>Stop\<close> changes
  nothing, the start guard stays consumed, and a \<open>Start\<close> under a live context launches
  nothing.
\<close>

theorem Stop_stop_guard_counterexample:
  "\<not> oStartDone (nodes (Stop 0 exState) 0) \<and> Err (Stop 0 exState) (WithCancel 9 Background)
   \<and> Stop 0 (Start (WithCancel 9 Background) o0 NewTask 7 0 (Stop 0 exState))
        = Start (WithCancel 9 Background) o0 NewTask 7 0 (Stop 0 exState)
   \<and> oStartDone (nodes (Stop 0 (Start (WithCancel 9 Background) o0 NewTask 7 0 (Stop 0 exState))) 0)
   \<and> \<not> Err (Stop 0 (Start (WithCancel 9 Background) o0 NewTask 7 0 (Stop 0 exState))) Background
   \<and> goroutines (Start Background o0 NewTask 8 0
        (Stop 0 (Start (WithCancel 9 Background) o0 NewTask 7 0 (Stop 0 exState)))) = []"
  by (simp add: Stop_def Start_def Let_def exState_def exNodes_def NewBaseNode_def upd_def)

section \<open>Completion bookkeeping and auto-stop\<close>









section \<open>The order of the calls in the goroutine\<close>

lemma logCall_fields [simp]:
  "nodes (logCall c s) = nodes s"
  "cancelled (logCall c s) = cancelled s"
  "nextToken (logCall c s) = nextToken s"
  "tasks (logCall c s) = tasks s"
  "goroutines (logCall c s) = goroutines s"
  "calls (logCall c s) = calls s @ [c]"
  by (simp_all add: logCall_def)

lemma logCall_reads [simp]:
  "Children n (logCall c s) = Children n s"
  "Parents n (logCall c s) = Parents n s"
  "Metadata n (logCall c s) = Metadata n s"
  "Context n (logCall c s) = Context n s"
  by (simp_all add: Children_def Parents_def Metadata_def Context_def)

lemma Stop_md [simp]: "md (nodes (Stop n s) x) = md (nodes s x)"
  by (simp add: Stop_def Let_def split: option.splits)

lemma Stop_edges [simp]:
  "children (nodes (Stop n s) x) = children (nodes s x)"
  "parents (nodes (Stop n s) x) = parents (nodes s x)"
  by (simp_all add: Stop_def Let_def split: option.splits)

lemma ParentIsDone_keeps [simp]:
  "calls (ParentIsDone c m s) = calls s"
  "md (nodes (ParentIsDone c m s) x) = md (nodes s x)"
  "children (nodes (ParentIsDone c m s) x) = children (nodes s x)"
  "parents (nodes (ParentIsDone c m s) x) = parents (nodes s x)"
  by (simp_all add: ParentIsDone_def Let_def split: option.splits)

lemma ChildIsDone_keeps [simp]:
  "calls (ChildIsDone c m s) = calls s"
  "md (nodes (ChildIsDone c m s) x) = md (nodes s x)"
  "children (nodes (ChildIsDone c m s) x) = children (nodes s x)"
  "parents (nodes (ChildIsDone c m s) x) = parents (nodes s x)"
  by (simp_all add: ChildIsDone_def Let_def split: option.splits)

lemma notifyChild_fold:
  "calls (fold (notifyChild n) cs s) = calls s @ map (\<lambda>c. CallParentIsDone c (md (nodes s n))) cs
   \<and> (\<forall>x. md (nodes (fold (notifyChild n) cs s) x) = md (nodes s x)
          \<and> parents (nodes (fold (notifyChild n) cs s) x) = parents (nodes s x))"
  by (induction cs arbitrary: s) (simp_all add: notifyChild_def)

lemma notifyParent_fold:
  "calls (fold (notifyParent n) ps s) = calls s @ map (\<lambda>p. CallChildIsDone p (md (nodes s n))) ps
   \<and> (\<forall>x. md (nodes (fold (notifyParent n) ps s) x) = md (nodes s x))"
  by (induction ps arbitrary: s) (simp_all add: notifyParent_def)

lemma TaskDone_fields [simp]:
  "nodes (TaskDone t s) = nodes s"
  "calls (TaskDone t s) = calls s"
  "cancelled (TaskDone t s) = cancelled s"
  by (simp_all add: TaskDone_def)

lemma oStopDone_Stop: "oStopDone (nodes (Stop n s) n)"
  by (simp add: Stop_def Let_def split: option.splits)

lemma goroutine_calls:
  "calls (goroutine run n t e s)
     = calls (run e t (logCall (CallExec e t) s))
       @ map (\<lambda>c. CallParentIsDone c (Metadata n (run e t (logCall (CallExec e t) s))))
             (Children n (run e t (logCall (CallExec e t) s)))
       @ map (\<lambda>p. CallChildIsDone p (Metadata n (run e t (logCall (CallExec e t) s))))
             (Parents n (run e t (logCall (CallExec e t) s)))
       @ [CallStop n, CallDone t]
   \<and> oStopDone (nodes (goroutine run n t e s) n)"
proof -
  define s1 where "s1 = run e t (logCall (CallExec e t) s)"
  define s2 where "s2 = fold (notifyChild n) (Children n s1) s1"
  define s3 where "s3 = fold (notifyParent n) (Parents n s2) s2"
  have g: "goroutine run n t e s = TaskDone t (logCall (CallDone t) (Stop n (logCall (CallStop n) s3)))"
    by (simp add: goroutine_def Let_def s1_def s2_def s3_def)
  have c2: "calls s2 = calls s1 @ map (\<lambda>c. CallParentIsDone c (md (nodes s1 n))) (Children n s1)"
    and m2: "md (nodes s2 n) = md (nodes s1 n)"
    and p2: "parents (nodes s2 n) = parents (nodes s1 n)"
    unfolding s2_def using notifyChild_fold [of n "Children n s1" s1] by simp_all
  have P: "Parents n s2 = Parents n s1"
    by (simp add: Parents_def p2)
  have c3: "calls s3 = calls s2 @ map (\<lambda>p. CallChildIsDone p (md (nodes s2 n))) (Parents n s2)"
    unfolding s3_def using notifyParent_fold [of n "Parents n s2" s2] by simp
  have "oStopDone (nodes (Stop n (logCall (CallStop n) s3)) n)"
    by (rule oStopDone_Stop)
  then show ?thesis
    unfolding s1_def [symmetric] g by (simp add: c3 c2 m2 P Metadata_def)
qed


text \<open>
  Claim C2, amended. When the exec function has returned, every child is notified that its
  parent is done, in the order of \<open>Children\<close>, then every parent is notified that its child
  is done, in the order of \<open>Parents\<close>, then the node's own \<open>Stop\<close> is called, and last
  the task is marked done; the stop guard of the node has fired afterwards.
\<close>

theorem goroutine_order:
  "calls (goroutine run n t e s)
     = calls (run e t (logCall (CallExec e t) s))
       @ map (\<lambda>c. CallParentIsDone c (Metadata n (run e t (logCall (CallExec e t) s))))
             (Children n (run e t (logCall (CallExec e t) s)))
       @ map (\<lambda>p. CallChildIsDone p (Metadata n (run e t (logCall (CallExec e t) s))))
             (Parents n (run e t (logCall (CallExec e t) s)))
       @ [CallStop n, CallDone t]
   \<and> oStopDone (nodes (goroutine run n t e s) n)"
  by (rule goroutine_calls)

lemma exChain_eval:
  "goroutines exChain = [(1, 0, 7)]"
  "Children (Suc 0) exChain = [2]"
  "Parents (Suc 0) exChain = [0]"
  "Metadata (Suc 0) exChain = md0 ''a''"
  "calls exChain = []"
  by (simp_all add: exChain_def ConnectNodes_def AddChild_def AddParent_def Metadata_def exState_def
      exNodes_def NewBaseNode_def md0_def Start_def createTask_def Let_def
      Children_def Parents_def List.map_filter_simps upd_def)

text \<open>
  Claim C2 as stated puts the call of \<open>Stop\<close> and the completion of the task before the
  notifications. For node 1 with the parent 0 and the child 2 the calls are made in the
  opposite order.
\<close>

theorem goroutine_order_counterexample:
  "goroutines exChain = [(1, 0, 7)]
   \<and> calls (goroutine (\<lambda>e t s. s) 1 0 7 exChain)
       = [CallExec 7 0, CallParentIsDone 2 (md0 ''a''), CallChildIsDone 0 (md0 ''a''),
          CallStop 1, CallDone 0]
   \<and> \<not> precedes (CallStop 1) (CallParentIsDone 2 (md0 ''a''))
          (calls (goroutine (\<lambda>e t s. s) 1 0 7 exChain))
   \<and> \<not> precedes (CallDone 0) (CallChildIsDone 0 (md0 ''a''))
          (calls (goroutine (\<lambda>e t s. s) 1 0 7 exChain))"
proof -
  have "calls (goroutine (\<lambda>e t s. s) 1 0 7 exChain)
       = [CallExec 7 0, CallParentIsDone 2 (md0 ''a''), CallChildIsDone 0 (md0 ''a''),
          CallStop 1, CallDone 0]"
    using goroutine_calls [of "\<lambda>e t s. s" 1 0 7 exChain]
    by (simp add: exChain_eval)
  then show ?thesis
    by (simp add: exChain_eval precedes_def)
qed

section \<open>Connecting nodes\<close>




lemma AddChild_md [simp]: "Metadata x (AddChild n i s) = Metadata x s"
  by (simp add: AddChild_def Metadata_def upd_def split: option.splits)

lemma AddParent_md [simp]: "Metadata x (AddParent n i s) = Metadata x s"
  by (simp add: AddParent_def Metadata_def upd_def split: option.splits)


lemma AddChild_parents [simp]: "parents (nodes (AddChild n i s) x) = parents (nodes s x)"
  by (simp add: AddChild_def upd_def split: option.splits)


lemma AddParent_children [simp]: "children (nodes (AddParent n i s) x) = children (nodes s x)"
  by (simp add: AddParent_def upd_def split: option.splits)










section \<open>The registry of the workflow\<close>

lemma walked_mono: "walked s ns m \<Longrightarrow> set ns \<subseteq> set ns' \<Longrightarrow> walked s ns' m"
  by (induction rule: walked.induct) (auto intro: walked.intros)

lemma walked_trans:
  "walked s ns m \<Longrightarrow> (\<And>x. x \<in> set ns \<Longrightarrow> walked s ns' x) \<Longrightarrow> walked s ns' m"
  by (induction rule: walked.induct) (auto intro: walked.intros)

lemma walked_Cons:
  "walked s (n # ns) m = (m = n \<or> walked s (Children n s) m \<or> walked s ns m)"
proof
  assume "walked s (n # ns) m"
  then show "m = n \<or> walked s (Children n s) m \<or> walked s ns m"
  proof (induction rule: walked.induct)
    case (start m)
    then show ?case by (auto intro: walked.start)
  next
    case (child m c)
    then show ?case by (auto intro: walked.intros)
  qed
next
  assume a: "m = n \<or> walked s (Children n s) m \<or> walked s ns m"
  have n: "walked s (n # ns) n" by (simp add: walked.start)
  have "walked s (n # ns) m" if "walked s (Children n s) m"
    using that by (rule walked_trans) (auto intro: walked.child [OF n])
  moreover have "walked s (n # ns) m" if "walked s ns m"
    using that by (rule walked_mono) auto
  ultimately show "walked s (n # ns) m" using a n by blast
qed

lemma walked_Nil [simp]: "\<not> walked s [] m"
proof
  assume "walked s [] m"
  then show False by (induction rule: walked.induct) simp_all
qed

lemma walked_closed:
  assumes "walked s ns m" and "set ns \<subseteq> S" and "\<And>x. x \<in> S \<Longrightarrow> set (Children x s) \<subseteq> S"
  shows "m \<in> S"
  using assms by (induction rule: walked.induct) auto

lemma indexNodesFunc_registry:
  "indexNodesFunc k s ns r = Some r' \<Longrightarrow>
   (\<forall>x. (\<forall>m. walked s ns m \<longrightarrow> Name (Metadata m s) \<noteq> x) \<longrightarrow> r' x = r x)
   \<and> (\<forall>m. walked s ns m \<longrightarrow>
         (\<exists>m'. walked s ns m' \<and> Name (Metadata m' s) = Name (Metadata m s)
               \<and> r' (Name (Metadata m s)) = Some m'))"
proof (induction k s ns r arbitrary: r' rule: indexNodesFunc.induct)
  case (1 s ns r)
  then show ?case by simp
next
  case (2 k s r)
  then show ?case by simp
next
  case (3 k s n ns r)
  let ?r1 = "r(Name (Metadata n s) \<mapsto> n)"
  from "3.prems" obtain r2 where
    r2: "indexNodesFunc k s (Children n s) ?r1 = Some r2"
    and r': "indexNodesFunc (Suc k) s ns r2 = Some r'"
    by (auto split: option.splits)
  note ih1 = "3.IH"(1) [OF r2]
  note ih2 = "3.IH"(2) [OF r2 r']
  have keep1: "r2 x = ?r1 x" if "\<forall>m. walked s (Children n s) m \<longrightarrow> Name (Metadata m s) \<noteq> x" for x
    using ih1 that by blast
  have keep2: "r' x = r2 x" if "\<forall>m. walked s ns m \<longrightarrow> Name (Metadata m s) \<noteq> x" for x
    using ih2 that by blast
  have hit1: "\<exists>m'. walked s (Children n s) m' \<and> Name (Metadata m' s) = Name (Metadata m s)
               \<and> r2 (Name (Metadata m s)) = Some m'" if "walked s (Children n s) m" for m
    using ih1 that by blast
  have hit2: "\<exists>m'. walked s ns m' \<and> Name (Metadata m' s) = Name (Metadata m s)
               \<and> r' (Name (Metadata m s)) = Some m'" if "walked s ns m" for m
    using ih2 that by blast
  have A: "r' x = r x" if "\<forall>m. walked s (n # ns) m \<longrightarrow> Name (Metadata m s) \<noteq> x" for x
  proof -
    have "r' x = r2 x" using that by (intro keep2) (simp add: walked_Cons)
    also have "r2 x = ?r1 x" using that by (intro keep1) (simp add: walked_Cons)
    also have "?r1 x = r x" using that by (auto simp: walked_Cons)
    finally show ?thesis .
  qed
  have B: "\<exists>m'. walked s (n # ns) m' \<and> Name (Metadata m' s) = x \<and> r' x = Some m'"
    if m: "walked s (n # ns) m" and x: "x = Name (Metadata m s)" for m x
  proof (cases "\<exists>m2. walked s ns m2 \<and> Name (Metadata m2 s) = x")
    case True
    then obtain m2 where "walked s ns m2" "Name (Metadata m2 s) = x" by blast
    with hit2 [of m2] show ?thesis by (auto simp: walked_Cons)
  next
    case no2: False
    then have e2: "r' x = r2 x" by (intro keep2) blast
    show ?thesis
    proof (cases "\<exists>m1. walked s (Children n s) m1 \<and> Name (Metadata m1 s) = x")
      case True
      then obtain m1 where "walked s (Children n s) m1" "Name (Metadata m1 s) = x" by blast
      with hit1 [of m1] e2 show ?thesis by (auto simp: walked_Cons)
    next
      case no1: False
      then have e1: "r2 x = ?r1 x" by (intro keep1) blast
      from m no1 no2 x have "m = n" by (auto simp: walked_Cons)
      then show ?thesis using e1 e2 x by (auto simp: walked_Cons)
    qed
  qed
  show ?case using A B by blast
qed


text \<open>A larger bound gives the same result.\<close>

lemma indexNodesFunc_fuel:
  "indexNodesFunc k s ns r = Some r' \<Longrightarrow> indexNodesFunc (Suc k) s ns r = Some r'"
proof (induction k s ns r arbitrary: r' rule: indexNodesFunc.induct)
  case (1 s ns r)
  then show ?case by simp
next
  case (2 k s r)
  then show ?case by simp
next
  case (3 k s n ns r)
  from "3.prems" obtain r2 where
    r2: "indexNodesFunc k s (Children n s) (r(Name (Metadata n s) \<mapsto> n)) = Some r2"
    and r': "indexNodesFunc (Suc k) s ns r2 = Some r'"
    by (auto split: option.splits)
  have a: "indexNodesFunc (Suc k) s (Children n s) (r(Name (Metadata n s) \<mapsto> n)) = Some r2"
    by (rule "3.IH"(1) [OF r2])
  have b: "indexNodesFunc (Suc (Suc k)) s ns r2 = Some r'"
    by (rule "3.IH"(2) [OF r2 r'])
  show ?case using a b by (simp del: fun_upd_apply)
qed

text \<open>
  On a graph without cycles, where a rank decreases from every node to its children, the
  walk returns as soon as the bound exceeds the ranks of the nodes it starts from.
\<close>

lemma indexNodesFunc_returns:
  assumes rk: "\<And>m c. c \<in> set (Children m s) \<Longrightarrow> rk c < (rk m :: nat)"
  shows "(\<forall>n \<in> set ns. rk n < k) \<Longrightarrow> \<exists>r'. indexNodesFunc (Suc k) s ns r = Some r'"
proof (induction k arbitrary: ns r)
  case 0
  then have "ns = []" by (cases ns) auto
  then show ?case by simp
next
  case (Suc k)
  from Suc.prems show ?case
  proof (induction ns arbitrary: r)
    case Nil
    then show ?case by simp
  next
    case (Cons n ns)
    have "\<forall>c \<in> set (Children n s). rk c < k"
      using rk [of _ n] Cons.prems by fastforce
    then obtain r2 where
      r2: "indexNodesFunc (Suc k) s (Children n s) (r(Name (Metadata n s) \<mapsto> n)) = Some r2"
      using Suc.IH by blast
    obtain r' where "indexNodesFunc (Suc (Suc k)) s ns r2 = Some r'"
      using Cons.IH [of r2] Cons.prems by auto
    then show ?case using r2 by (simp del: fun_upd_apply)
  qed
qed

text \<open>
  Claim C4, amended. When \<open>IndexNodes\<close> returns, the registry holds under the name of
  every node visited by the walk from the children of the root a visited node of that name,
  and every entry of the previous registry under a name that no visited node bears is
  still there: the registry is extended and overwritten, not emptied first. Nothing else
  of the workflow changes.
\<close>

theorem IndexNodes_registry:
  assumes "IndexNodes k w s = Some w'"
  shows "(\<forall>m. walked s (Children (wf_bn w) s) m \<longrightarrow>
            (\<exists>m'. walked s (Children (wf_bn w) s) m'
                  \<and> Name (Metadata m' s) = Name (Metadata m s)
                  \<and> wf_ns w' (Name (Metadata m s)) = Some m'))
    \<and> (\<forall>x. (\<forall>m. walked s (Children (wf_bn w) s) m \<longrightarrow> Name (Metadata m s) \<noteq> x) \<longrightarrow>
            wf_ns w' x = wf_ns w x)
    \<and> w' = w\<lparr>wf_ns := wf_ns w'\<rparr>"
proof -
  from assms obtain r' where
    r': "indexNodesFunc k s (Children (wf_bn w) s) (wf_ns w) = Some r'" and w': "w' = w\<lparr>wf_ns := r'\<rparr>"
    by (auto simp: IndexNodes_def)
  show ?thesis
    using indexNodesFunc_registry [OF r'] by (simp add: w')
qed

lemma exIndexed_eval:
  "Children 0 exIndexed = [1, 2]"
  "Children (Suc 0) exIndexed = []"
  "Children 2 exIndexed = []"
  "Metadata (Suc 0) exIndexed = md0 ''a''"
  "Metadata 2 exIndexed = md0 ''b''"
  by (simp_all add: exIndexed_def AddChild_def Metadata_def exState_def exNodes_def NewBaseNode_def
      md0_def Children_def List.map_filter_simps upd_def)

lemma exOnlyA_eval:
  "Children 0 exOnlyA = [1]"
  "Children (Suc 0) exOnlyA = []"
  "Metadata (Suc 0) exOnlyA = md0 ''a''"
  by (simp_all add: exOnlyA_def AddChild_def Metadata_def exState_def exNodes_def NewBaseNode_def
      md0_def Children_def List.map_filter_simps upd_def)

theorem IndexNodes_registry_witness:
  "IndexNodes (Suc (Suc 0)) (exWorkflow\<lparr>wf_ns := [''z'' \<mapsto> 3]\<rparr>) exIndexed
     = Some (exWorkflow\<lparr>wf_ns := [''z'' \<mapsto> 3, ''a'' \<mapsto> 1, ''b'' \<mapsto> 2]\<rparr>)
   \<and> walked exIndexed (Children 0 exIndexed) 1
   \<and> walked exIndexed (Children 0 exIndexed) 2"
proof -
  have h: "IndexNodes (Suc (Suc 0)) (exWorkflow\<lparr>wf_ns := [''z'' \<mapsto> 3]\<rparr>) exIndexed
     = Some (exWorkflow\<lparr>wf_ns := [''z'' \<mapsto> 3, ''a'' \<mapsto> 1, ''b'' \<mapsto> 2]\<rparr>)"
    by (simp add: IndexNodes_def exWorkflow_def exIndexed_eval md0_def)
  show ?thesis
    using IndexNodes_registry [OF h] h by (simp add: exIndexed_eval walked.start)
qed

text \<open>
  Claim C4 as stated fails for an entry left by an earlier indexing: the registry holds a
  and b, the root has the child a only, and after \<open>IndexNodes\<close> the registry still maps b
  to node 2, which the walk does not visit.
\<close>

theorem IndexNodes_registry_counterexample:
  "IndexNodes (Suc (Suc 0)) exWorkflow exOnlyA = Some exWorkflow
   \<and> wf_ns exWorkflow ''b'' = Some 2
   \<and> \<not> walked exOnlyA (Children (wf_bn exWorkflow) exOnlyA) 2"
proof -
  have "\<not> walked exOnlyA [1] 2"
  proof
    assume "walked exOnlyA [1] 2"
    then have "(2::nat) \<in> {Suc 0}"
      by (rule walked_closed) (auto simp: exOnlyA_eval)
    then show False by simp
  qed
  moreover have "[''a'' \<mapsto> 1, ''b'' \<mapsto> 2::nat](''a'' \<mapsto> 1) = [''a'' \<mapsto> 1, ''b'' \<mapsto> 2]"
    by (rule ext) simp
  then have "IndexNodes (Suc (Suc 0)) exWorkflow exOnlyA = Some exWorkflow"
    by (simp add: IndexNodes_def exWorkflow_def exOnlyA_eval md0_def del: fun_upd_apply)
  ultimately show ?thesis
    by (simp add: exWorkflow_def exOnlyA_eval)
qed

text \<open>
  Claim C7. \<open>Node\<close> returns the workflow unchanged; it returns a node exactly when the
  registry maps the name to that node, and an error exactly when the registry has no entry
  for the name, and the error is then the not-found error.
\<close>

theorem Node_lookup:
  "fst (Node w name') = w
   \<and> (snd (Node w name') = Inr n) = (wf_ns w name' = Some n)
   \<and> (snd (Node w name') = Inl ErrNodeNotFound) = (wf_ns w name' = None)
   \<and> (snd (Node w name') = Inl e) = (wf_ns w name' = None \<and> e = ErrNodeNotFound)"
  by (auto simp: Node_def split: option.splits)

theorem Node_lookup_witness:
  "IndexNodes (Suc (Suc 0)) (exWorkflow\<lparr>wf_ns := Map.empty\<rparr>) exIndexed = Some exWorkflow
   \<and> Node exWorkflow ''a'' = (exWorkflow, Inr 1)
   \<and> Node exWorkflow ''b'' = (exWorkflow, Inr 2)
   \<and> Node exWorkflow ''z'' = (exWorkflow, Inl ErrNodeNotFound)"
proof -
  have i: "IndexNodes (Suc (Suc 0)) (exWorkflow\<lparr>wf_ns := Map.empty\<rparr>) exIndexed = Some exWorkflow"
    by (simp add: IndexNodes_def exWorkflow_def exIndexed_eval md0_def)
  have r: "wf_ns exWorkflow ''a'' = Some 1" "wf_ns exWorkflow ''b'' = Some 2"
    "wf_ns exWorkflow ''z'' = None"
    by (simp_all add: exWorkflow_def)
  show ?thesis
    using Node_lookup [of exWorkflow "''a''" 1 ErrNodeNotFound]
      Node_lookup [of exWorkflow "''b''" 2 ErrNodeNotFound]
      Node_lookup [of exWorkflow "''z''" 0 ErrNodeNotFound] i r
    by (simp add: prod_eq_iff)
qed

section \<open>Pause and Continue\<close>

lemma emitted_append [simp]: "emitted (xs @ ys) = emitted xs @ emitted ys"
  by (induction xs) (simp_all add: emitted_def List.map_filter_simps split: call.splits)

lemma emitted_simps [simp]:
  "emitted [] = []"
  "emitted [CallEmit e] = [e]"
  "emitted [CallNodePause n] = []"
  "emitted [CallNodeContinue n] = []"
  by (simp_all add: emitted_def List.map_filter_simps)

lemma fold_pause:
  "calls (fold (\<lambda>n. logCall (CallNodePause n)) ns s) = calls s @ map CallNodePause ns
   \<and> nodes (fold (\<lambda>n. logCall (CallNodePause n)) ns s) = nodes s"
  by (induction ns arbitrary: s) (simp_all add: logCall_def)

lemma fold_continue:
  "calls (fold (\<lambda>n. logCall (CallNodeContinue n)) ns s) = calls s @ map CallNodeContinue ns
   \<and> nodes (fold (\<lambda>n. logCall (CallNodeContinue n)) ns s) = nodes s"
  by (induction ns arbitrary: s) (simp_all add: logCall_def)

lemma emitted_pauses [simp]: "emitted (map CallNodePause ns) = []"
  by (induction ns) (simp_all add: emitted_def List.map_filter_simps)

lemma emitted_continues [simp]: "emitted (map CallNodeContinue ns) = []"
  by (induction ns) (simp_all add: emitted_def List.map_filter_simps)

lemma Pause_not_running: "Status (wf_bn w) s \<noteq> StatusRunning \<Longrightarrow> Pause w ns s = s"
  by (simp add: Pause_def)

lemma Pause_running:
  assumes "Status (wf_bn w) s = StatusRunning"
  shows "Status (wf_bn w) (Pause w ns s) = StatusPaused"
    and "calls (Pause w ns s) = calls s @ map CallNodePause ns
           @ [CallEmit \<lparr>EName = EventNameWorkflowPaused, Payload = PString (wf_name w)\<rparr>]"
  using assms fold_pause [of ns s]
  by (simp_all add: Pause_def Let_def Emit_def logCall_def upd_def Status_def)

lemma Continue_not_paused: "Status (wf_bn w) s \<noteq> StatusPaused \<Longrightarrow> Continue w ns s = s"
  by (simp add: Continue_def)

lemma Continue_paused:
  assumes "Status (wf_bn w) s = StatusPaused"
  shows "Status (wf_bn w) (Continue w ns s) = StatusRunning"
    and "calls (Continue w ns s) = calls s @ map CallNodeContinue ns
           @ [CallEmit \<lparr>EName = EventNameWorkflowStarted, Payload = PString (wf_name w)\<rparr>]"
  using assms fold_continue [of ns s]
  by (simp_all add: Continue_def Let_def Emit_def logCall_def upd_def Status_def)

text \<open>
  Claim C5. \<open>Pause\<close> changes nothing unless the status is Running, and then sets the
  status to Paused and emits one event, the paused event; \<open>Continue\<close> changes nothing
  unless the status is Paused, and then sets the status to Running and emits one event, the
  started event; a status among Stopped, Running and Paused stays among them.
\<close>

theorem Pause_Continue_transitions:
  "(Status (wf_bn w) s \<noteq> StatusRunning \<longrightarrow> Pause w ns s = s)
   \<and> (Status (wf_bn w) s = StatusRunning \<longrightarrow>
        Status (wf_bn w) (Pause w ns s) = StatusPaused
        \<and> emitted (calls (Pause w ns s))
            = emitted (calls s)
              @ [\<lparr>EName = EventNameWorkflowPaused, Payload = PString (wf_name w)\<rparr>])
   \<and> (Status (wf_bn w) s \<noteq> StatusPaused \<longrightarrow> Continue w ns s = s)
   \<and> (Status (wf_bn w) s = StatusPaused \<longrightarrow>
        Status (wf_bn w) (Continue w ns s) = StatusRunning
        \<and> emitted (calls (Continue w ns s))
            = emitted (calls s)
              @ [\<lparr>EName = EventNameWorkflowStarted, Payload = PString (wf_name w)\<rparr>])
   \<and> (Status (wf_bn w) s \<in> {StatusStopped, StatusRunning, StatusPaused} \<longrightarrow>
        Status (wf_bn w) (Pause w ns s) \<in> {StatusStopped, StatusRunning, StatusPaused}
        \<and> Status (wf_bn w) (Continue w ns s) \<in> {StatusStopped, StatusRunning, StatusPaused})"
proof -
  have a: "Status (wf_bn w) (Pause w ns s) \<in> {StatusStopped, StatusRunning, StatusPaused}"
    if "Status (wf_bn w) s \<in> {StatusStopped, StatusRunning, StatusPaused}"
    using that Pause_running(1) [of w s ns] Pause_not_running [of w s ns]
    by (cases "Status (wf_bn w) s = StatusRunning") auto
  have b: "Status (wf_bn w) (Continue w ns s) \<in> {StatusStopped, StatusRunning, StatusPaused}"
    if "Status (wf_bn w) s \<in> {StatusStopped, StatusRunning, StatusPaused}"
    using that Continue_paused(1) [of w s ns] Continue_not_paused [of w s ns]
    by (cases "Status (wf_bn w) s = StatusPaused") auto
  show ?thesis
    using a b by (simp add: Pause_not_running Pause_running Continue_not_paused Continue_paused)
qed

theorem Pause_Continue_transitions_witness:
  "Status 0 exStopped = StatusStopped \<and> Pause exWorkflow [1, 2] exStopped = exStopped
   \<and> Continue exWorkflow [1, 2] exStopped = exStopped
   \<and> Status 0 exRunning = StatusRunning
   \<and> Status 0 (Pause exWorkflow [1, 2] exRunning) = StatusPaused
   \<and> emitted (calls (Pause exWorkflow [1, 2] exRunning))
        = [\<lparr>EName = EventNameWorkflowPaused, Payload = PString ''wf''\<rparr>]
   \<and> Status 0 (Continue exWorkflow [2, 1] (Pause exWorkflow [1, 2] exRunning)) = StatusRunning
   \<and> emitted (calls (Continue exWorkflow [2, 1] (Pause exWorkflow [1, 2] exRunning)))
        = [\<lparr>EName = EventNameWorkflowPaused, Payload = PString ''wf''\<rparr>,
           \<lparr>EName = EventNameWorkflowStarted, Payload = PString ''wf''\<rparr>]"
proof -
  have h: "Status 0 exStopped = StatusStopped" "Status 0 exRunning = StatusRunning"
    "calls exRunning = []" "wf_bn exWorkflow = 0" "wf_name exWorkflow = ''wf''"
    "StatusStopped \<noteq> StatusRunning" "StatusStopped \<noteq> StatusPaused"
    by (simp_all add: exStopped_def exRunning_def exState_def Status_def upd_def exWorkflow_def
        StatusStopped_def StatusRunning_def StatusPaused_def)
  show ?thesis
    using Pause_Continue_transitions [of exWorkflow exStopped "[1, 2]"]
      Pause_Continue_transitions [of exWorkflow exRunning "[1, 2]"]
      Pause_Continue_transitions [of exWorkflow "Pause exWorkflow [1, 2] exRunning" "[2, 1]"]
      h
    by simp
qed


section \<open>The exec function of the workflow\<close>

lemma assign_fold:
  "fold (\<lambda>n ngs. ngs(n \<mapsto> k)) ns ngs = (\<lambda>x. if x \<in> set ns then Some k else ngs x)"
  by (induction ns arbitrary: ngs) (auto simp: fun_eq_iff)

lemma indexGroup_fst:
  "fst (fold indexGroup ogs (gs, ngs)) = gs @ map newGroup ogs"
  by (induction ogs arbitrary: gs ngs) (simp_all add: indexGroup_def)

lemma indexGroup_snoc:
  "snd (fold indexGroup (ogs @ [og]) ([], Map.empty)) n
     = (if n \<in> set (Nodes og) then Some (length ogs)
        else snd (fold indexGroup ogs ([], Map.empty)) n)"
proof -
  obtain gs ngs where f: "fold indexGroup ogs ([], Map.empty) = (gs, ngs)"
    by (cases "fold indexGroup ogs ([], Map.empty)")
  have "gs = map newGroup ogs"
    using indexGroup_fst [of ogs "[]" Map.empty] f by simp
  then show ?thesis
    by (simp add: f indexGroup_def assign_fold)
qed

lemma ngs_Some:
  "snd (fold indexGroup ogs ([], Map.empty)) n = Some i
   \<longleftrightarrow> i < length ogs \<and> n \<in> set (Nodes (ogs ! i))
       \<and> (\<forall>j. i < j \<and> j < length ogs \<longrightarrow> n \<notin> set (Nodes (ogs ! j)))"
proof (induction ogs arbitrary: i rule: rev_induct)
  case Nil
  then show ?case by simp
next
  case (snoc og ogs)
  show ?case
  proof (cases "n \<in> set (Nodes og)")
    case True
    have "i = length ogs" if "i < Suc (length ogs)"
      and "\<forall>j. i < j \<and> j < Suc (length ogs) \<longrightarrow> n \<notin> set (Nodes ((ogs @ [og]) ! j))"
    proof (rule ccontr)
      assume "i \<noteq> length ogs"
      then have "i < length ogs" using that(1) by simp
      moreover from that(2) have "i < length ogs \<and> length ogs < Suc (length ogs)
          \<longrightarrow> n \<notin> set (Nodes ((ogs @ [og]) ! length ogs))" by (rule spec)
      ultimately show False using True by simp
    qed
    then show ?thesis unfolding indexGroup_snoc using True by auto
  next
    case False
    have "(i < Suc (length ogs) \<and> n \<in> set (Nodes ((ogs @ [og]) ! i))
           \<and> (\<forall>j. i < j \<and> j < Suc (length ogs) \<longrightarrow> n \<notin> set (Nodes ((ogs @ [og]) ! j))))
        = (i < length ogs \<and> n \<in> set (Nodes (ogs ! i))
           \<and> (\<forall>j. i < j \<and> j < length ogs \<longrightarrow> n \<notin> set (Nodes (ogs ! j))))"
      using False by (auto simp: nth_append less_Suc_eq)
    then show ?thesis unfolding indexGroup_snoc using False snoc.IH [of i] by simp
  qed
qed

lemma ngs_None:
  "snd (fold indexGroup ogs ([], Map.empty)) n = None \<longleftrightarrow> (\<forall>og \<in> set ogs. n \<notin> set (Nodes og))"
proof (induction ogs rule: rev_induct)
  case Nil
  then show ?case by simp
next
  case (snoc og ogs)
  show ?case unfolding indexGroup_snoc using snoc.IH by auto
qed


lemma Context_nodes: "nodes s' = nodes s \<Longrightarrow> Context n s' = Context n s"
  by (simp add: Context_def)

lemma startLoop:
  "calls (fold (\<lambda>n s. logCall (CallNodeStart n (Context b s) tc) s) ns s)
     = calls s @ map (\<lambda>n. CallNodeStart n (Context b s) tc) ns
   \<and> nodes (fold (\<lambda>n s. logCall (CallNodeStart n (Context b s) tc) s) ns s) = nodes s
   \<and> tasks (fold (\<lambda>n s. logCall (CallNodeStart n (Context b s) tc) s) ns s) = tasks s"
proof (induction ns arbitrary: s)
  case Nil
  then show ?case by simp
next
  case (Cons n ns)
  have c: "Context b (logCall (CallNodeStart n (Context b s) tc) s) = Context b s"
    by (simp add: Context_def)
  show ?case using Cons [of "logCall (CallNodeStart n (Context b s) tc) s"] by (simp add: c)
qed

lemma StartNodes_calls:
  "calls (StartNodes w ns s)
     = calls s @ map (\<lambda>n. CallNodeStart n (Context (wf_bn w) s) (NewSubTask (wf_t w))) ns"
  "nodes (StartNodes w ns s) = nodes s"
  "tasks (StartNodes w ns s) = tasks s"
  using startLoop [of "wf_bn w" "NewSubTask (wf_t w)" ns s] by (simp_all add: StartNodes_def)

lemma StartNodesInSubTask_calls:
  "fst (StartNodesInSubTask w ns s) = length (tasks s)"
  "calls (snd (StartNodesInSubTask w ns s))
     = calls s @ map (\<lambda>n. CallNodeStart n (Context (wf_bn w) s)
                              (NewSubTask (Some (length (tasks s))))) ns"
  "nodes (snd (StartNodesInSubTask w ns s)) = nodes s"
  "tasks (snd (StartNodesInSubTask w ns s))
     = tasks s @ [\<lparr>parentTask = wf_t w, taskDone = False\<rparr>]"
proof -
  let ?s1 = "s\<lparr>tasks := tasks s @ [\<lparr>parentTask = wf_t w, taskDone = False\<rparr>]\<rparr>"
  have c: "Context (wf_bn w) ?s1 = Context (wf_bn w) s" by (simp add: Context_def)
  note l = startLoop [of "wf_bn w" "NewSubTask (Some (length (tasks s)))" ns ?s1]
  show "fst (StartNodesInSubTask w ns s) = length (tasks s)"
    by (simp add: StartNodesInSubTask_def createTask_def)
  show "calls (snd (StartNodesInSubTask w ns s))
     = calls s @ map (\<lambda>n. CallNodeStart n (Context (wf_bn w) s)
                              (NewSubTask (Some (length (tasks s))))) ns"
    using l by (simp add: StartNodesInSubTask_def createTask_def c)
  show "nodes (snd (StartNodesInSubTask w ns s)) = nodes s"
    using l by (simp add: StartNodesInSubTask_def createTask_def)
  show "tasks (snd (StartNodesInSubTask w ns s))
     = tasks s @ [\<lparr>parentTask = wf_t w, taskDone = False\<rparr>]"
    using l by (simp add: StartNodesInSubTask_def createTask_def)
qed

text \<open>The partition of the nodes: ungrouped nodes are started, grouped ones collected.\<close>

lemma startOrCollect_fold:
  "fst (fold (startOrCollect w ngs) ns (gs, s))
     = map (\<lambda>i. (gs ! i)\<lparr>g_ns := g_ns (gs ! i) @ filter (\<lambda>n. ngs n = Some i) ns\<rparr>)
           [0..<length gs]
   \<and> calls (snd (fold (startOrCollect w ngs) ns (gs, s)))
       = calls s @ map (\<lambda>n. CallNodeStart n (Context (wf_bn w) s) (NewSubTask (wf_t w)))
                       (filter (\<lambda>n. ngs n = None) ns)
   \<and> nodes (snd (fold (startOrCollect w ngs) ns (gs, s))) = nodes s
   \<and> tasks (snd (fold (startOrCollect w ngs) ns (gs, s))) = tasks s"
proof (induction ns arbitrary: gs s)
  case Nil
  have "map (\<lambda>i. gs ! i) [0..<length gs] = gs" by (rule map_nth)
  then show ?case by simp
next
  case (Cons n ns)
  show ?case
  proof (cases "ngs n")
    case None
    have st: "startOrCollect w ngs n (gs, s) = (gs, StartNodes w [n] s)"
      by (simp add: startOrCollect_def None)
    have c: "Context (wf_bn w) (StartNodes w [n] s) = Context (wf_bn w) s"
      by (rule Context_nodes) (rule StartNodes_calls)
    show ?thesis
      using Cons [of gs "StartNodes w [n] s"] None
      by (simp add: st c StartNodes_calls)
  next
    case (Some g)
    let ?gs = "gs[g := (gs ! g)\<lparr>g_ns := g_ns (gs ! g) @ [n]\<rparr>]"
    have st: "startOrCollect w ngs n (gs, s) = (?gs, s)"
      by (simp add: startOrCollect_def Some)
    have "map (\<lambda>i. (?gs ! i)\<lparr>g_ns := g_ns (?gs ! i) @ filter (\<lambda>n. ngs n = Some i) ns\<rparr>)
            [0..<length ?gs]
        = map (\<lambda>i. (gs ! i)\<lparr>g_ns := g_ns (gs ! i) @ filter (\<lambda>n. ngs n = Some i) (n # ns)\<rparr>)
            [0..<length gs]"
      using Some by (auto simp: nth_list_update)
    then show ?thesis
      using Cons [of ?gs s] Some by (simp add: st)
  qed
qed


lemma startGroups_calls:
  "fst (startGroups w gs s)
     = map (\<lambda>i. (gs ! i)\<lparr>g_t := Some (length (tasks s) + i)\<rparr>) [0..<length gs]
   \<and> calls (snd (startGroups w gs s))
       = calls s @ concat (map (\<lambda>i. map (\<lambda>n. CallNodeStart n (Context (wf_bn w) s)
                                              (NewSubTask (Some (length (tasks s) + i))))
                                     (g_ns (gs ! i))) [0..<length gs])
   \<and> nodes (snd (startGroups w gs s)) = nodes s
   \<and> tasks (snd (startGroups w gs s))
       = tasks s @ replicate (length gs) \<lparr>parentTask = wf_t w, taskDone = False\<rparr>"
proof (induction gs arbitrary: s)
  case Nil
  then show ?case by simp
next
  case (Cons g gs)
  let ?r = "StartNodesInSubTask w (g_ns g) s"
  let ?s1 = "snd ?r"
  note sub = StartNodesInSubTask_calls [of w "g_ns g" s]
  have len: "length (tasks ?s1) = Suc (length (tasks s))" by (simp add: sub)
  have c: "Context (wf_bn w) ?s1 = Context (wf_bn w) s"
    by (rule Context_nodes) (rule sub)
  have unfold: "startGroups w (g # gs) s
      = (g\<lparr>g_t := Some (fst ?r)\<rparr> # fst (startGroups w gs ?s1), snd (startGroups w gs ?s1))"
    by (simp add: Let_def split: prod.splits)
  show ?case
    unfolding unfold using Cons [of ?s1]
    by (simp add: sub len c map_upt_Suc replicate_app_Cons_same del: upt_Suc)
qed

lemma runCallback_fold:
  "calls (fold runCallback gs s) = calls s @ concat (map callbackCalls gs)
   \<and> nodes (fold runCallback gs s) = nodes s
   \<and> tasks (fold runCallback gs s) = tasks s"
  by (induction gs arbitrary: s)
     (simp_all add: runCallback_def callbackCalls_def split: option.splits)

lemma start_exec_calls:
  "calls (snd (start_exec w ns o' closeErr t s))
     = calls s
       @ map (\<lambda>n. CallNodeStart n (Context (wf_bn w) s) (NewSubTask (Some t)))
             (filter (\<lambda>n. groupOf o' n = None) ns)
       @ concat (map (\<lambda>i. map (\<lambda>n. CallNodeStart n (Context (wf_bn w) s)
                                      (NewSubTask (Some (length (tasks s) + i))))
                             (filter (\<lambda>n. groupOf o' n = Some i) ns))
                     [0..<length (Groups o')])
       @ [CallEmit \<lparr>EName = EventNameWorkflowStarted, Payload = PString (wf_name w)\<rparr>]
       @ concat (map (\<lambda>i. case Callback (Groups o' ! i) of
                             None \<Rightarrow> []
                           | Some f \<Rightarrow> [CallCallback f (Some (length (tasks s) + i))])
                     [0..<length (Groups o')])
       @ [CallWait t, CallClose]
       @ (case closeErr of
            None \<Rightarrow> []
          | Some e \<Rightarrow> [CallEmit (EventError (closingFailed e (wf_name w)))])
       @ [CallEmit \<lparr>EName = EventNameWorkflowStopped, Payload = PString (wf_name w)\<rparr>]"
  (is "?lhs = ?rhs")
  and start_exec_tasks:
  "tasks (snd (start_exec w ns o' closeErr t s))
     = tasks s @ replicate (length (Groups o')) \<lparr>parentTask = Some t, taskDone = False\<rparr>"
  and start_exec_workflow: "fst (start_exec w ns o' closeErr t s) = w\<lparr>wf_t := Some t\<rparr>"
proof -
  let ?w = "w\<lparr>wf_t := Some t\<rparr>"
  let ?G = "Groups o'"
  let ?T = "length (tasks s)"
  define gs where "gs = map newGroup ?G"
  define ngs where "ngs = groupOf o'"
  have ig: "fold indexGroup ?G ([], Map.empty) = (gs, ngs)"
    using indexGroup_fst [of ?G "[]" Map.empty]
    by (simp add: gs_def ngs_def groupOf_def prod_eq_iff)
  define r1 where "r1 = fold (startOrCollect ?w ngs) ns (gs, s)"
  define gs1 where "gs1 = fst r1"
  define s1 where "s1 = snd r1"
  note p1 = startOrCollect_fold [of ?w ngs ns gs s, folded r1_def, folded gs1_def s1_def]
  define r2 where "r2 = startGroups ?w gs1 s1"
  define gs2 where "gs2 = fst r2"
  define s2 where "s2 = snd r2"
  note p2 = startGroups_calls [of ?w gs1 s1, folded r2_def, folded gs2_def s2_def]
  have lg: "length gs = length ?G" by (simp add: gs_def)
  have lg1: "length gs1 = length ?G" using p1 by (simp add: lg)
  have t1: "length (tasks s1) = ?T" using p1 by simp
  have c1: "Context (wf_bn w) s1 = Context (wf_bn w) s"
    using p1 by (intro Context_nodes) simp
  have gs1_ns: "g_ns (gs1 ! i) = filter (\<lambda>n. ngs n = Some i) ns" if "i < length ?G" for i
    using p1 that by (simp add: lg gs_def)
  have gs1_fn: "g_fn (gs1 ! i) = Callback (?G ! i)" if "i < length ?G" for i
    using p1 that by (simp add: lg gs_def)
  have G2: "concat (map (\<lambda>i. map (\<lambda>n. CallNodeStart n (Context (wf_bn w) s1)
                                      (NewSubTask (Some (length (tasks s1) + i))))
                             (g_ns (gs1 ! i))) [0..<length gs1])
     = concat (map (\<lambda>i. map (\<lambda>n. CallNodeStart n (Context (wf_bn w) s)
                                      (NewSubTask (Some (?T + i))))
                             (filter (\<lambda>n. ngs n = Some i) ns)) [0..<length ?G])"
    unfolding lg1 c1 t1
    by (rule arg_cong [where f = concat], rule map_cong) (simp_all add: gs1_ns)
  have cb: "map callbackCalls gs2
     = map (\<lambda>i. case Callback (?G ! i) of
                   None \<Rightarrow> []
                 | Some f \<Rightarrow> [CallCallback f (Some (?T + i))]) [0..<length ?G]"
  proof -
    have "map callbackCalls gs2
        = map (\<lambda>i. callbackCalls ((gs1 ! i)\<lparr>g_t := Some (?T + i)\<rparr>)) [0..<length ?G]"
      using p2 by (simp add: lg1 t1 comp_def)
    also have "\<dots> = map (\<lambda>i. case Callback (?G ! i) of
                   None \<Rightarrow> []
                 | Some f \<Rightarrow> [CallCallback f (Some (?T + i))]) [0..<length ?G]"
      by (rule map_cong) (simp_all add: callbackCalls_def gs1_fn split: option.splits)
    finally show ?thesis .
  qed
  have se: "start_exec w ns o' closeErr t s
    = (?w, Emit \<lparr>EName = EventNameWorkflowStopped, Payload = PString (wf_name w)\<rparr>
        (case closeErr of
           None \<Rightarrow> logCall CallClose (logCall (CallWait t) (fold runCallback gs2
                     (Emit \<lparr>EName = EventNameWorkflowStarted, Payload = PString (wf_name w)\<rparr> s2)))
         | Some e \<Rightarrow> Emit (EventError (closingFailed e (wf_name w)))
                     (logCall CallClose (logCall (CallWait t) (fold runCallback gs2
                     (Emit \<lparr>EName = EventNameWorkflowStarted, Payload = PString (wf_name w)\<rparr> s2))))))"
    unfolding gs2_def s2_def r2_def gs1_def s1_def r1_def
    by (simp add: start_exec_def Let_def ig case_prod_beta split: option.splits)
  have cs1: "calls s1 = calls s
      @ map (\<lambda>n. CallNodeStart n (Context (wf_bn w) s) (NewSubTask (Some t)))
            (filter (\<lambda>n. ngs n = None) ns)"
    and ts1: "tasks s1 = tasks s"
    using p1 by simp_all
  have cs2: "calls s2 = calls s1
      @ concat (map (\<lambda>i. map (\<lambda>n. CallNodeStart n (Context (wf_bn w) s)
                                      (NewSubTask (Some (?T + i))))
                             (filter (\<lambda>n. ngs n = Some i) ns)) [0..<length ?G])"
    using p2 G2 by simp
  have ts2: "tasks s2 = tasks s @ replicate (length ?G) \<lparr>parentTask = Some t, taskDone = False\<rparr>"
    using p2 by (simp add: ts1 lg1)
  show "?lhs = ?rhs"
    by (simp add: se Emit_def runCallback_fold cb cs2 cs1 ngs_def split: option.splits)
  show "tasks (snd (start_exec w ns o' closeErr t s))
     = tasks s @ replicate (length ?G) \<lparr>parentTask = Some t, taskDone = False\<rparr>"
    by (simp add: se Emit_def runCallback_fold ts2 split: option.splits)
  show "fst (start_exec w ns o' closeErr t s) = ?w"
    by (simp add: se)
qed


text \<open>
  Claim C8, amended. The exec function first starts the nodes that are in no group, each
  with \<open>NewSubTask\<close> of the top-level task; then, group by group, it creates one sub-task
  of the top-level task and starts the nodes of the group with \<open>NewSubTask\<close> of that
  sub-task; then it emits the started event; then, group by group, it calls the callback, if
  there is one, with the sub-task of the group; then it waits. The nodes started under the
  sub-task of a group are the nodes of \<open>ns\<close> that the group names and no later group
  names; the nodes started on their own are those that no group names.
\<close>

theorem start_exec_groups:
  "(\<exists>rest. calls (snd (start_exec w ns o' closeErr t s))
           = calls s
             @ map (\<lambda>n. CallNodeStart n (Context (wf_bn w) s) (NewSubTask (Some t)))
                   (filter (\<lambda>n. groupOf o' n = None) ns)
             @ concat (map (\<lambda>i. map (\<lambda>n. CallNodeStart n (Context (wf_bn w) s)
                                            (NewSubTask (Some (length (tasks s) + i))))
                                   (filter (\<lambda>n. groupOf o' n = Some i) ns))
                           [0..<length (Groups o')])
             @ [CallEmit \<lparr>EName = EventNameWorkflowStarted, Payload = PString (wf_name w)\<rparr>]
             @ concat (map (\<lambda>i. case Callback (Groups o' ! i) of
                                   None \<Rightarrow> []
                                 | Some f \<Rightarrow> [CallCallback f (Some (length (tasks s) + i))])
                           [0..<length (Groups o')])
             @ CallWait t # rest)
   \<and> tasks (snd (start_exec w ns o' closeErr t s))
       = tasks s @ replicate (length (Groups o')) \<lparr>parentTask = Some t, taskDone = False\<rparr>
   \<and> (groupOf o' n = None) = (\<forall>og \<in> set (Groups o'). n \<notin> set (Nodes og))
   \<and> (groupOf o' n = Some i)
       = (i < length (Groups o') \<and> n \<in> set (Nodes (Groups o' ! i))
          \<and> (\<forall>j. i < j \<and> j < length (Groups o') \<longrightarrow> n \<notin> set (Nodes (Groups o' ! j))))"
proof -
  have "(groupOf o' n = Some i)
       = (i < length (Groups o') \<and> n \<in> set (Nodes (Groups o' ! i))
          \<and> (\<forall>j. i < j \<and> j < length (Groups o') \<longrightarrow> n \<notin> set (Nodes (Groups o' ! j))))"
    using ngs_Some [of "Groups o'" n i] by (simp add: groupOf_def)
  moreover have "(groupOf o' n = None) = (\<forall>og \<in> set (Groups o'). n \<notin> set (Nodes og))"
    using ngs_None [of "Groups o'" n] by (simp add: groupOf_def)
  ultimately show ?thesis
    by (simp add: start_exec_calls start_exec_tasks)
qed

lemma exRoot_eval:
  "calls exRoot = []"
  "tasks exRoot = [\<lparr>parentTask = None, taskDone = False\<rparr>]"
  "goroutines exRoot = [(0, 0, 7)]"
  "Context 0 exRoot = Some (WithCancel 10 Background)"
  by (simp_all add: exRoot_def exIndexed_def AddChild_def Metadata_def exState_def exNodes_def
      NewBaseNode_def md0_def Start_def createTask_def Let_def upd_def Context_def)

lemma exGroups_eval:
  "groupOf exGroups (Suc 0) = Some 0"
  "groupOf exGroups 2 = None"
  "Groups exGroups = [\<lparr>Callback = Some 3, Nodes = [1]\<rparr>]"
  by (simp_all add: groupOf_def exGroups_def indexGroup_def)

lemma exRun_calls:
  "calls (snd (start_exec exWorkflow [1, 2] exGroups None 0 exRoot))
     = [CallNodeStart 2 (Some (WithCancel 10 Background)) (NewSubTask (Some 0)),
        CallNodeStart 1 (Some (WithCancel 10 Background)) (NewSubTask (Some 1)),
        CallEmit \<lparr>EName = EventNameWorkflowStarted, Payload = PString ''wf''\<rparr>,
        CallCallback 3 (Some 1),
        CallWait 0, CallClose,
        CallEmit \<lparr>EName = EventNameWorkflowStopped, Payload = PString ''wf''\<rparr>]"
  by (simp add: start_exec_calls exRoot_eval exGroups_eval exWorkflow_def)


theorem start_exec_groups_witness:
  "groupOf exGroups 1 = Some 0
   \<and> calls (snd (start_exec exWorkflow [1, 2] exGroups None 0 exRoot))
     = [CallNodeStart 2 (Some (WithCancel 10 Background)) (NewSubTask (Some 0)),
        CallNodeStart 1 (Some (WithCancel 10 Background)) (NewSubTask (Some 1)),
        CallEmit \<lparr>EName = EventNameWorkflowStarted, Payload = PString ''wf''\<rparr>,
        CallCallback 3 (Some 1),
        CallWait 0, CallClose,
        CallEmit \<lparr>EName = EventNameWorkflowStopped, Payload = PString ''wf''\<rparr>]
   \<and> tasks (snd (start_exec exWorkflow [1, 2] exGroups None 0 exRoot))
     = [\<lparr>parentTask = None, taskDone = False\<rparr>, \<lparr>parentTask = Some 0, taskDone = False\<rparr>]"
  using start_exec_groups [of exWorkflow "[1, 2]" exGroups None 0 exRoot 1 0] exRun_calls
  by (simp add: exRoot_eval exGroups_eval)

text \<open>
  Claim C8 as stated has the callbacks called before the started event is emitted. In the
  run with one group, holding node 1, the started event comes before the callback.
\<close>

theorem start_exec_groups_counterexample:
  "calls (snd (start_exec exWorkflow [1, 2] exGroups None 0 exRoot))
     = [CallNodeStart 2 (Some (WithCancel 10 Background)) (NewSubTask (Some 0)),
        CallNodeStart 1 (Some (WithCancel 10 Background)) (NewSubTask (Some 1)),
        CallEmit \<lparr>EName = EventNameWorkflowStarted, Payload = PString ''wf''\<rparr>,
        CallCallback 3 (Some 1),
        CallWait 0, CallClose,
        CallEmit \<lparr>EName = EventNameWorkflowStopped, Payload = PString ''wf''\<rparr>]
   \<and> \<not> precedes (CallCallback 3 (Some 1))
          (CallEmit \<lparr>EName = EventNameWorkflowStarted, Payload = PString ''wf''\<rparr>)
          (calls (snd (start_exec exWorkflow [1, 2] exGroups None 0 exRoot)))
   \<and> precedes (CallEmit \<lparr>EName = EventNameWorkflowStarted, Payload = PString ''wf''\<rparr>)
          (CallCallback 3 (Some 1))
          (calls (snd (start_exec exWorkflow [1, 2] exGroups None 0 exRoot)))"
  using exRun_calls by (simp add: precedes_def)

end
